theory Spec2Isabelle
  imports Main
begin

section \<open>Edge reducer (\<open>buildPolygons\<close>, \<open>checkIfCollinear\<close>)\<close>

text \<open>
  Hull points are two-element arrays \<open>[x, y]\<close>; the pipeline feeds the pixel bounds of
  tiles, which are integers, so coordinates are modelled as \<open>int\<close>.  A \<open>Phaser.Line\<close> is
  built from four numbers and read through \<open>start.x\<close>, \<open>start.y\<close>, \<open>end.x\<close>, \<open>end.y\<close>.
  The reducer is modelled with exact integer arithmetic, which is the arithmetic of
  JavaScript numbers as long as no difference or product leaves the range of exactly
  represented integers; \<open>checkIfCollinearDouble\<close> below is the collinearity test as
  computed in double precision, for what happens beyond that range.
\<close>

type_synonym point = "int \<times> int"

datatype line = Line (start_x: int) (start_y: int) (end_x: int) (end_y: int)

datatype error = TypeError

text \<open>\<open>new Phaser.Line(...p, ...q)\<close> for two points.\<close>

definition LinePts :: "point \<Rightarrow> point \<Rightarrow> line" where
  "LinePts p q = Line (fst p) (snd p) (fst q) (snd q)"

text \<open>
  \<open>checkIfCollinear\<close> with exact arithmetic: the test of the source on every input whose
  differences and products are exactly represented (claim C7 below);
  \<open>checkIfCollinearDouble\<close> is the same computation in double precision.
\<close>

definition checkIfCollinear :: "line \<Rightarrow> line \<Rightarrow> bool" where
  "checkIfCollinear line1 line2 =
     (let dx1 = end_x line1 - start_x line1;
          dy1 = end_y line1 - start_y line1;
          dx2 = end_x line2 - start_x line2;
          dy2 = end_y line2 - start_y line2
      in (dx1 * dy2) - (dy1 * dx2) = 0)"

text \<open>
  The loop \<open>for (let i = 1; i < hullPoints.length; i++)\<close> of \<open>buildPolygons\<close>, with the
  array of finished edges and the current edge as its state.
\<close>

function walkSegments :: "point list \<Rightarrow> nat \<Rightarrow> line list \<Rightarrow> line \<Rightarrow> line list \<times> line" where
  "walkSegments hullPoints i edges currentEdge =
     (if i < length hullPoints then
        (let segment = LinePts (hullPoints ! (i - 1)) (hullPoints ! i) in
         if checkIfCollinear currentEdge segment then
           walkSegments hullPoints (i + 1) edges
             (Line (start_x currentEdge) (start_y currentEdge) (end_x segment) (end_y segment))
         else
           walkSegments hullPoints (i + 1) (edges @ [currentEdge]) segment)
      else (edges, currentEdge))"
  by pat_completeness auto
termination
  by (relation "measure (\<lambda>(hullPoints, i, edges, currentEdge). length hullPoints - i)") auto

declare walkSegments.simps [simp del]

text \<open>
  The closing segment from the last point back to the first: either it extends the
  current edge, which is then pushed, or the current edge and the segment are both pushed.
\<close>

definition closeSegment :: "point list \<Rightarrow> line list \<times> line \<Rightarrow> line list" where
  "closeSegment hullPoints st =
     (let edges = fst st; currentEdge = snd st;
          segment = LinePts (hullPoints ! (length hullPoints - 1)) (hullPoints ! 0)
      in if checkIfCollinear currentEdge segment then
           edges @ [Line (start_x currentEdge) (start_y currentEdge) (end_x segment) (end_y segment)]
         else edges @ [currentEdge, segment])"

text \<open>
  The merge of the first and the last edge.  \<open>edges.shift()\<close> removes and returns the first
  element, \<open>edges.pop()\<close> the last; on an array of one edge \<open>pop\<close> returns \<open>undefined\<close>
  after the \<open>shift\<close>, and reading \<open>lastLine.end\<close> throws a TypeError, as does reading
  \<open>edges[0].end\<close> on an empty array.
\<close>

definition mergeFirstLast :: "line list \<Rightarrow> error + line list" where
  "mergeFirstLast edges =
     (if edges = [] then Inl TypeError
      else if checkIfCollinear (edges ! 0) (edges ! (length edges - 1)) then
        (if length edges < 2 then Inl TypeError
         else
           (let firstLine = hd edges;
                lastLine = last edges;
                combinedLine = Line (start_x firstLine) (start_y firstLine)
                                    (end_x lastLine) (end_y lastLine)
            in Inr (butlast (tl edges) @ [combinedLine])))
      else Inr edges)"

text \<open>
  The body of \<open>for (const hullPoints of hulls)\<close>.  Spreading \<open>hullPoints[0]\<close> or
  \<open>hullPoints[1]\<close> throws a TypeError when the array has fewer than two points.
\<close>

definition buildPolygon :: "point list \<Rightarrow> error + line list" where
  "buildPolygon hullPoints =
     (if length hullPoints < 2 then Inl TypeError
      else
        (let currentEdge = LinePts (hullPoints ! 0) (hullPoints ! 1)
         in mergeFirstLast (closeSegment hullPoints (walkSegments hullPoints 1 [] currentEdge))))"

fun buildPolygons :: "point list list \<Rightarrow> error + line list list" where
  "buildPolygons [] = Inr []"
| "buildPolygons (hullPoints # hulls) =
     (case buildPolygon hullPoints of
        Inl e \<Rightarrow> Inl e
      | Inr edges \<Rightarrow>
          (case buildPolygons hulls of
             Inl e \<Rightarrow> Inl e
           | Inr polygons \<Rightarrow> Inr (edges # polygons)))"

text \<open>The direction vector (end minus start) of an edge, and the sum of the direction
  vectors of a polygon's edges.\<close>

definition direction :: "line \<Rightarrow> int \<times> int" where
  "direction l = (end_x l - start_x l, end_y l - start_y l)"

definition sumDirections :: "line list \<Rightarrow> int \<times> int" where
  "sumDirections edges =
     (sum_list (map (\<lambda>l. fst (direction l)) edges), sum_list (map (\<lambda>l. snd (direction l)) edges))"

text \<open>
  The numbers of the source are IEEE-754 doubles.  On integer-valued operands, the result
  of a subtraction or a multiplication is the exact integer result rounded to the nearest
  double (53 significant bits, ties to the even significand), or an infinity when the
  rounded magnitude reaches \<open>2 ^ 1024\<close>; the infinities and NaN follow the IEEE rules.  The
  two zeros are not told apart: both are \<open>=== 0\<close>.
\<close>

datatype double = Finite int | PosInfinity | NegInfinity | NaN

text \<open>The number of binary digits of a positive integer.\<close>

function bitLength :: "int \<Rightarrow> nat" where
  "bitLength a = (if a \<le> 0 then 0 else Suc (bitLength (a div 2)))"
  by pat_completeness auto
termination
  by (relation "measure nat") auto

declare bitLength.simps [simp del]

text \<open>The double nearest to an integer.\<close>

definition roundDouble :: "int \<Rightarrow> double" where
  "roundDouble n =
     (let a = \<bar>n\<bar> in
      if a < 2 ^ 53 then Finite n
      else
        (let e = bitLength a - 53;
             q = a div 2 ^ e;
             r = a mod 2 ^ e;
             half = 2 ^ (e - 1);
             q' = (if half < r \<or> (r = half \<and> odd q) then q + 1 else q);
             m = q' * 2 ^ e
         in if 2 ^ 1024 \<le> m then (if n < 0 then NegInfinity else PosInfinity)
            else Finite (if n < 0 then - m else m)))"

fun doubleSub :: "double \<Rightarrow> double \<Rightarrow> double" where
  "doubleSub (Finite a) (Finite b) = roundDouble (a - b)"
| "doubleSub NaN _ = NaN"
| "doubleSub _ NaN = NaN"
| "doubleSub PosInfinity PosInfinity = NaN"
| "doubleSub NegInfinity NegInfinity = NaN"
| "doubleSub PosInfinity _ = PosInfinity"
| "doubleSub NegInfinity _ = NegInfinity"
| "doubleSub (Finite a) PosInfinity = NegInfinity"
| "doubleSub (Finite a) NegInfinity = PosInfinity"

fun doubleNeg :: "double \<Rightarrow> double" where
  "doubleNeg (Finite a) = Finite (- a)"
| "doubleNeg PosInfinity = NegInfinity"
| "doubleNeg NegInfinity = PosInfinity"
| "doubleNeg NaN = NaN"

fun doubleMul :: "double \<Rightarrow> double \<Rightarrow> double" where
  "doubleMul (Finite a) (Finite b) = roundDouble (a * b)"
| "doubleMul NaN _ = NaN"
| "doubleMul _ NaN = NaN"
| "doubleMul (Finite a) d = (if a = 0 then NaN else if 0 < a then d else doubleNeg d)"
| "doubleMul d (Finite b) = (if b = 0 then NaN else if 0 < b then d else doubleNeg d)"
| "doubleMul PosInfinity d = d"
| "doubleMul NegInfinity d = doubleNeg d"

text \<open>
  \<open>checkIfCollinear\<close> as the source computes it: four subtractions, two multiplications
  and a subtraction in doubles, then \<open>=== 0\<close>.  The coordinates are integer-valued doubles.
\<close>

definition checkIfCollinearDouble :: "line \<Rightarrow> line \<Rightarrow> bool" where
  "checkIfCollinearDouble line1 line2 =
     (let dx1 = doubleSub (Finite (end_x line1)) (Finite (start_x line1));
          dy1 = doubleSub (Finite (end_y line1)) (Finite (start_y line1));
          dx2 = doubleSub (Finite (end_x line2)) (Finite (start_x line2));
          dy2 = doubleSub (Finite (end_y line2)) (Finite (start_y line2))
      in doubleSub (doubleMul dx1 dy2) (doubleMul dy1 dx2) = Finite 0)"

text \<open>
  A segment on which the arithmetic of the test is exact: integer coordinates below
  \<open>2 ^ 53\<close> and direction components below \<open>2 ^ 26\<close> in magnitude, so that every
  product stays below \<open>2 ^ 52\<close>.
\<close>

definition safeLine :: "line \<Rightarrow> bool" where
  "safeLine l =
     (\<bar>start_x l\<bar> < 2 ^ 53 \<and> \<bar>start_y l\<bar> < 2 ^ 53 \<and> \<bar>end_x l\<bar> < 2 ^ 53 \<and> \<bar>end_y l\<bar> < 2 ^ 53 \<and>
      \<bar>end_x l - start_x l\<bar> < 2 ^ 26 \<and> \<bar>end_y l - start_y l\<bar> < 2 ^ 26)"

text \<open>Some pair of cyclically adjacent edges (the last edge is followed by the first)
  passes the collinearity test.\<close>

definition cyclicAdjacentCollinear :: "line list \<Rightarrow> bool" where
  "cyclicAdjacentCollinear edges =
     list_ex (\<lambda>i. checkIfCollinear (edges ! i) (edges ! ((i + 1) mod length edges)))
       [0..<length edges]"



text \<open>The loop of \<open>buildPolygons\<close> read as a recursion over the points that are still
  to come, with the previous point carried along (used in proofs only).\<close>

fun scanSegments :: "point \<Rightarrow> point list \<Rightarrow> line list \<Rightarrow> line \<Rightarrow> line list \<times> line" where
  "scanSegments prev [] edges currentEdge = (edges, currentEdge)"
| "scanSegments prev (p # ps) edges currentEdge =
     (if checkIfCollinear currentEdge (LinePts prev p) then
        scanSegments p ps edges
          (Line (start_x currentEdge) (start_y currentEdge) (fst p) (snd p))
      else scanSegments p ps (edges @ [currentEdge]) (LinePts prev p))"

section \<open>Cluster finder (\<open>calculateClusters\<close>)\<close>

text \<open>
  Modelled from the spec: Phaser's \<open>Tile\<close> class and \<open>Tilemap.getTile\<close> are not part of
  the source file.  A cell is a grid coordinate plus the caller's tile data, and the
  accessor answers cell-or-empty for zero-based coordinates in
  \<open>[0, width) \<times> [0, height)\<close>.  A tile object is what \<open>getTile\<close> answers for a cell: it
  carries the coordinates of its cell (\<open>tile.x\<close>, \<open>tile.y\<close>), so the tiles of two cells
  are two objects and \<open>===\<close> on tiles is equality.  The fields read by the source are
  \<open>index\<close>, \<open>properties\<close> (here the truthiness of each named property), \<open>collides\<close> and
  the pixel bounds \<open>left\<close>, \<open>right\<close>, \<open>top\<close>, \<open>bottom\<close>.
\<close>

record tile =
  tile_x :: int
  tile_y :: int
  tile_index :: int
  tile_properties :: "(string \<times> bool) list"
  tile_collides :: bool
  tile_left :: int
  tile_right :: int
  tile_top :: int
  tile_bottom :: int

text \<open>The layer of the tilemap that \<open>tilemapLayer.index\<close> selects: its size and its
  cells.\<close>

record tilemap =
  width :: int
  height :: int
  tiles :: "int \<Rightarrow> int \<Rightarrow> tile option"

text \<open>
  Modelled from the spec: \<open>tilemap.getTile(tx, ty, tilemapLayer.index)\<close>, which answers
  \<open>null\<close> outside the grid and for an empty cell.
\<close>

definition getTile :: "tilemap \<Rightarrow> int \<Rightarrow> int \<Rightarrow> tile option" where
  "getTile tilemap tx ty =
     (if 0 \<le> tx \<and> tx < width tilemap \<and> 0 \<le> ty \<and> ty < height tilemap then
        map_option (\<lambda>t. t\<lparr>tile_x := tx, tile_y := ty\<rparr>) (tiles tilemap tx ty)
      else None)"

text \<open>The options of \<open>phaserTiledHull\<close>, with \<open>None\<close> for \<open>null\<close>.\<close>

record options =
  tileIndices :: "int list option"
  tileProperty :: "string option"
  checkCollide :: bool

text \<open>
  \<open>checkTile\<close>: \<open>null\<close> fails; then the three modes are tried in order.  A \<open>null\<close>
  \<open>tileIndices\<close> and a \<open>null\<close> or empty \<open>tileProperty\<close> are falsy in JavaScript, an empty
  array of indices is truthy and contains nothing.
\<close>

fun checkTile :: "options \<Rightarrow> tile option \<Rightarrow> bool" where
  "checkTile opts None = False"
| "checkTile opts (Some tile) =
     (if (case tileIndices opts of None \<Rightarrow> False | Some ixs \<Rightarrow> tile_index tile \<in> set ixs) then True
      else if (case tileProperty opts of None \<Rightarrow> False
               | Some name \<Rightarrow> name \<noteq> [] \<and> map_of (tile_properties tile) name = Some True) then True
      else if checkCollide opts \<and> tile_collides tile then True
      else False)"

declare checkTile.simps(2) [simp del]

text \<open>
  \<open>recursivelySearchNeighbors\<close> pushes on the array \<open>cluster\<close>, which its four recursive
  calls share: each call takes the cluster as the previous call left it and returns it
  updated.
\<close>

function recursivelySearchNeighbors ::
  "tilemap \<Rightarrow> options \<Rightarrow> int \<Rightarrow> int \<Rightarrow> tile list \<Rightarrow> tile list" where
  "recursivelySearchNeighbors tilemap opts x y cluster =
     (case getTile tilemap x y of
        None \<Rightarrow> cluster
      | Some tile \<Rightarrow>
          if checkTile opts (Some tile) \<and> tile \<notin> set cluster then
            (let cluster1 = cluster @ [tile];
                 cluster2 = recursivelySearchNeighbors tilemap opts x (y - 1) cluster1;
                 cluster3 = recursivelySearchNeighbors tilemap opts x (y + 1) cluster2;
                 cluster4 = recursivelySearchNeighbors tilemap opts (x + 1) y cluster3
             in recursivelySearchNeighbors tilemap opts (x - 1) y cluster4)
          else cluster)"
  by pat_completeness auto

text \<open>
  The matching cells of a grid, as the tile objects \<open>getTile\<close> answers for them.  The flood
  fill terminates because every recursive call is made on a cluster that holds one more
  of these finitely many tiles.
\<close>

definition matching :: "tilemap \<Rightarrow> options \<Rightarrow> tile set" where
  "matching tilemap opts =
     {t. getTile tilemap (tile_x t) (tile_y t) = Some t \<and> checkTile opts (Some t)}"

lemma getTile_SomeD:
  "getTile m x y = Some t \<Longrightarrow>
   tile_x t = x \<and> tile_y t = y \<and> 0 \<le> x \<and> x < width m \<and> 0 \<le> y \<and> y < height m"
  by (auto simp: getTile_def split: if_splits)

lemma finite_matching: "finite (matching m opts)"
proof -
  have "matching m opts \<subseteq>
      (\<lambda>(x, y). the (getTile m x y)) ` ({0..<width m} \<times> {0..<height m})"
  proof
    fix t assume "t \<in> matching m opts"
    then have g: "getTile m (tile_x t) (tile_y t) = Some t" by (simp add: matching_def)
    from getTile_SomeD[OF g] have "(tile_x t, tile_y t) \<in> {0..<width m} \<times> {0..<height m}"
      by simp
    moreover have "t = (\<lambda>(x, y). the (getTile m x y)) (tile_x t, tile_y t)" using g by simp
    ultimately show "t \<in> (\<lambda>(x, y). the (getTile m x y)) ` ({0..<width m} \<times> {0..<height m})"
      by (rule rev_image_eqI)
  qed
  then show ?thesis by (rule finite_subset) simp
qed

lemma rsn_incr:
  "recursivelySearchNeighbors_dom (m, opts, x, y, c) \<Longrightarrow>
   set c \<subseteq> set (recursivelySearchNeighbors m opts x y c)"
proof (induction m opts x y c rule: recursivelySearchNeighbors.pinduct)
  case (1 m opts x y c)
  show ?case
  proof (cases "getTile m x y")
    case None
    then show ?thesis using "1.hyps" by (simp add: recursivelySearchNeighbors.psimps)
  next
    case (Some t)
    show ?thesis
    proof (cases "checkTile opts (Some t) \<and> t \<notin> set c")
      case False
      then show ?thesis using "1.hyps" Some by (auto simp: recursivelySearchNeighbors.psimps)
    next
      case True
      note ih = "1.IH"[OF Some True]
      let ?c1 = "c @ [t]"
      let ?c2 = "recursivelySearchNeighbors m opts x (y - 1) ?c1"
      let ?c3 = "recursivelySearchNeighbors m opts x (y + 1) ?c2"
      let ?c4 = "recursivelySearchNeighbors m opts (x + 1) y ?c3"
      let ?c5 = "recursivelySearchNeighbors m opts (x - 1) y ?c4"
      have "set ?c1 \<subseteq> set ?c2" using ih(1)[OF refl] .
      moreover have "set ?c2 \<subseteq> set ?c3" using ih(2)[OF refl refl] .
      moreover have "set ?c3 \<subseteq> set ?c4" using ih(3)[OF refl refl refl] .
      moreover have "set ?c4 \<subseteq> set ?c5" using ih(4)[OF refl refl refl refl] .
      moreover have "recursivelySearchNeighbors m opts x y c = ?c5"
        using "1.hyps" Some True by (simp add: recursivelySearchNeighbors.psimps)
      ultimately show ?thesis by auto
    qed
  qed
qed

lemma matchingI:
  "getTile m x y = Some t \<Longrightarrow> checkTile opts (Some t) \<Longrightarrow> t \<in> matching m opts"
  using getTile_SomeD [of m x y t] by (simp add: matching_def)

lemma unvisited_decr:
  assumes "t \<in> matching m opts" and "t \<notin> set c" and "set (c @ [t]) \<subseteq> set c'"
  shows "card (matching m opts - set c') < card (matching m opts - set c)"
proof (rule psubset_card_mono)
  show "finite (matching m opts - set c)" using finite_matching by simp
  show "matching m opts - set c' \<subset> matching m opts - set c" using assms by auto
qed

termination recursivelySearchNeighbors
proof (relation "measure (\<lambda>(m, opts, x, y, c). card (matching m opts - set c))")
  show "wf (measure (\<lambda>(m, opts, x, y, c). card (matching m opts - set c)))" by simp
next
  fix m opts x y c t c1
  assume "getTile m x y = Some t" "checkTile opts (Some t) \<and> t \<notin> set c" "c1 = c @ [t]"
  then show "((m, opts, x, y - 1, c1), (m, opts, x, y, c))
      \<in> measure (\<lambda>(m, opts, x, y, c). card (matching m opts - set c))"
    using unvisited_decr [of t m opts c c1] by (simp add: matchingI)
next
  fix m opts x y c t c1 c2
  assume "getTile m x y = Some t" "checkTile opts (Some t) \<and> t \<notin> set c" "c1 = c @ [t]"
    "c2 = recursivelySearchNeighbors m opts x (y - 1) c1"
    "recursivelySearchNeighbors_dom (m, opts, x, y - 1, c1)"
  then show "((m, opts, x, y + 1, c2), (m, opts, x, y, c))
      \<in> measure (\<lambda>(m, opts, x, y, c). card (matching m opts - set c))"
    using unvisited_decr [of t m opts c c2] rsn_incr [of m opts x "y - 1" c1]
    by (simp add: matchingI)
next
  fix m opts x y c t c1 c2 c3
  assume "getTile m x y = Some t" "checkTile opts (Some t) \<and> t \<notin> set c" "c1 = c @ [t]"
    "c2 = recursivelySearchNeighbors m opts x (y - 1) c1"
    "c3 = recursivelySearchNeighbors m opts x (y + 1) c2"
    "recursivelySearchNeighbors_dom (m, opts, x, y - 1, c1)"
    "recursivelySearchNeighbors_dom (m, opts, x, y + 1, c2)"
  then show "((m, opts, x + 1, y, c3), (m, opts, x, y, c))
      \<in> measure (\<lambda>(m, opts, x, y, c). card (matching m opts - set c))"
    using unvisited_decr [of t m opts c c3] rsn_incr [of m opts x "y - 1" c1]
      rsn_incr [of m opts x "y + 1" c2]
    by (simp add: matchingI) blast
next
  fix m opts x y c t c1 c2 c3 c4
  assume "getTile m x y = Some t" "checkTile opts (Some t) \<and> t \<notin> set c" "c1 = c @ [t]"
    "c2 = recursivelySearchNeighbors m opts x (y - 1) c1"
    "c3 = recursivelySearchNeighbors m opts x (y + 1) c2"
    "c4 = recursivelySearchNeighbors m opts (x + 1) y c3"
    "recursivelySearchNeighbors_dom (m, opts, x, y - 1, c1)"
    "recursivelySearchNeighbors_dom (m, opts, x, y + 1, c2)"
    "recursivelySearchNeighbors_dom (m, opts, x + 1, y, c3)"
  then show "((m, opts, x - 1, y, c4), (m, opts, x, y, c))
      \<in> measure (\<lambda>(m, opts, x, y, c). card (matching m opts - set c))"
    using unvisited_decr [of t m opts c c4] rsn_incr [of m opts x "y - 1" c1]
      rsn_incr [of m opts x "y + 1" c2] rsn_incr [of m opts "x + 1" y c3]
    by (simp add: matchingI) blast
qed

declare recursivelySearchNeighbors.simps [simp del]

lemma rsn_None:
  "getTile m x y = None \<Longrightarrow> recursivelySearchNeighbors m opts x y c = c"
  by (subst recursivelySearchNeighbors.simps) simp

lemma rsn_skip:
  "getTile m x y = Some t \<Longrightarrow> \<not> checkTile opts (Some t) \<or> t \<in> set c \<Longrightarrow>
   recursivelySearchNeighbors m opts x y c = c"
  by (subst recursivelySearchNeighbors.simps) auto

lemma rsn_step:
  "getTile m x y = Some t \<Longrightarrow> checkTile opts (Some t) \<Longrightarrow> t \<notin> set c \<Longrightarrow>
   recursivelySearchNeighbors m opts x y c =
     recursivelySearchNeighbors m opts (x - 1) y
       (recursivelySearchNeighbors m opts (x + 1) y
         (recursivelySearchNeighbors m opts x (y + 1)
           (recursivelySearchNeighbors m opts x (y - 1) (c @ [t]))))"
  by (subst recursivelySearchNeighbors.simps) (simp add: Let_def)

text \<open>The induction rule of the flood fill, with the case distinction made.\<close>

lemma rsn_induct [case_names skip step]:
  assumes skip: "\<And>x y c. recursivelySearchNeighbors m opts x y c = c \<Longrightarrow> P x y c"
    and step: "\<And>x y c t c2 c3 c4 c5.
        getTile m x y = Some t \<Longrightarrow> checkTile opts (Some t) \<Longrightarrow> t \<notin> set c \<Longrightarrow>
        recursivelySearchNeighbors m opts x (y - 1) (c @ [t]) = c2 \<Longrightarrow>
        recursivelySearchNeighbors m opts x (y + 1) c2 = c3 \<Longrightarrow>
        recursivelySearchNeighbors m opts (x + 1) y c3 = c4 \<Longrightarrow>
        recursivelySearchNeighbors m opts (x - 1) y c4 = c5 \<Longrightarrow>
        recursivelySearchNeighbors m opts x y c = c5 \<Longrightarrow>
        P x (y - 1) (c @ [t]) \<Longrightarrow> P x (y + 1) c2 \<Longrightarrow> P (x + 1) y c3 \<Longrightarrow> P (x - 1) y c4 \<Longrightarrow>
        P x y c"
  shows "P x y c"
  using skip step
proof (induction m opts x y c rule: recursivelySearchNeighbors.induct)
  case (1 m opts x y c)
  note skip = "1.prems"(1) and step = "1.prems"(2)
  show ?case
  proof (cases "getTile m x y")
    case None
    then show ?thesis using skip [of x y c] rsn_None [of m x y opts c] by simp
  next
    case (Some t)
    show ?thesis
    proof (cases "checkTile opts (Some t) \<and> t \<notin> set c")
      case False
      then show ?thesis using skip [of x y c] rsn_skip [of m x y t opts c] Some by auto
    next
      case True
      note ih1 = "1.IH"(1)[OF Some True refl skip step]
        and ih2 = "1.IH"(2)[OF Some True refl refl skip step]
        and ih3 = "1.IH"(3)[OF Some True refl refl refl skip step]
        and ih4 = "1.IH"(4)[OF Some True refl refl refl refl skip step]
      show ?thesis
        using Some True ih1 ih2 ih3 ih4 rsn_step [of m x y t opts c]
        by (intro step [of x y t c]) auto
    qed
  qed
qed

lemma rsn_mono: "set c \<subseteq> set (recursivelySearchNeighbors m opts x y c)"
proof (induction x y c rule: rsn_induct [of m opts])
  case (skip x y c)
  then show ?case by simp
next
  case (step x y c t c2 c3 c4 c5)
  note ih = step.IH [unfolded step.hyps]
  from ih have "set c \<subseteq> set c5" by auto
  then show ?case using step.hyps(8) by simp
qed

text \<open>\<open>findTileInClusters\<close> answers the first cluster that holds the tile, or \<open>null\<close>.\<close>

fun findTileInClusters :: "tile list list \<Rightarrow> tile \<Rightarrow> tile list option" where
  "findTileInClusters [] searchTile = None"
| "findTileInClusters (cluster # clusters) searchTile =
     (if searchTile \<in> set cluster then Some cluster
      else findTileInClusters clusters searchTile)"

text \<open>The body of the two loops of \<open>calculateClusters\<close>, for the cell \<open>(x, y)\<close>.\<close>

definition visitTile :: "tilemap \<Rightarrow> options \<Rightarrow> int \<Rightarrow> int \<Rightarrow> tile list list \<Rightarrow> tile list list" where
  "visitTile tilemap opts x y clusters =
     (case getTile tilemap x y of
        None \<Rightarrow> clusters
      | Some tile \<Rightarrow>
          if checkTile opts (Some tile) \<and> findTileInClusters clusters tile = None then
            clusters @ [recursivelySearchNeighbors tilemap opts x y []]
          else clusters)"

text \<open>The inner loop \<open>for (var y = 0; y < tilemap.height; y++)\<close> and the outer loop
  \<open>for (var x = 0; x < tilemap.width; x++)\<close>.\<close>

function forY :: "tilemap \<Rightarrow> options \<Rightarrow> int \<Rightarrow> int \<Rightarrow> tile list list \<Rightarrow> tile list list" where
  "forY tilemap opts x y clusters =
     (if y < height tilemap then forY tilemap opts x (y + 1) (visitTile tilemap opts x y clusters)
      else clusters)"
  by pat_completeness auto
termination
  by (relation "measure (\<lambda>(tilemap, opts, x, y, clusters). nat (height tilemap - y))") auto

function forX :: "tilemap \<Rightarrow> options \<Rightarrow> int \<Rightarrow> tile list list \<Rightarrow> tile list list" where
  "forX tilemap opts x clusters =
     (if x < width tilemap then forX tilemap opts (x + 1) (forY tilemap opts x 0 clusters)
      else clusters)"
  by pat_completeness auto
termination
  by (relation "measure (\<lambda>(tilemap, opts, x, clusters). nat (width tilemap - x))") auto

declare forY.simps [simp del] forX.simps [simp del]

definition calculateClusters :: "tilemap \<Rightarrow> options \<Rightarrow> tile list list" where
  "calculateClusters tilemap opts = forX tilemap opts 0 []"

text \<open>
  The depth of the call stack of \<open>recursivelySearchNeighbors\<close>: one frame for the call
  itself, and below it the deepest of its four recursive calls, each made on the cluster
  as the calls before it left it.
\<close>

function recursionDepth :: "tilemap \<Rightarrow> options \<Rightarrow> int \<Rightarrow> int \<Rightarrow> tile list \<Rightarrow> nat" where
  "recursionDepth tilemap opts x y cluster =
     (case getTile tilemap x y of
        None \<Rightarrow> 1
      | Some tile \<Rightarrow>
          if checkTile opts (Some tile) \<and> tile \<notin> set cluster then
            (let cluster1 = cluster @ [tile];
                 cluster2 = recursivelySearchNeighbors tilemap opts x (y - 1) cluster1;
                 cluster3 = recursivelySearchNeighbors tilemap opts x (y + 1) cluster2;
                 cluster4 = recursivelySearchNeighbors tilemap opts (x + 1) y cluster3
             in 1 + max (max (recursionDepth tilemap opts x (y - 1) cluster1)
                             (recursionDepth tilemap opts x (y + 1) cluster2))
                        (max (recursionDepth tilemap opts (x + 1) y cluster3)
                             (recursionDepth tilemap opts (x - 1) y cluster4)))
          else 1)"
  by pat_completeness auto

termination
proof (relation "measure (\<lambda>(m, opts, x, y, c). card (matching m opts - set c))")
  show "wf (measure (\<lambda>(m, opts, x, y, c). card (matching m opts - set c)))" by simp
next
  fix m opts x y c t c1
  assume "getTile m x y = Some t" "checkTile opts (Some t) \<and> t \<notin> set c" "c1 = c @ [t]"
  then show "((m, opts, x, y - 1, c1), (m, opts, x, y, c))
      \<in> measure (\<lambda>(m, opts, x, y, c). card (matching m opts - set c))"
    using unvisited_decr [of t m opts c c1] by (simp add: matchingI)
next
  fix m opts x y c t c1 c2
  assume "getTile m x y = Some t" "checkTile opts (Some t) \<and> t \<notin> set c" "c1 = c @ [t]"
    "c2 = recursivelySearchNeighbors m opts x (y - 1) c1"
  then show "((m, opts, x, y + 1, c2), (m, opts, x, y, c))
      \<in> measure (\<lambda>(m, opts, x, y, c). card (matching m opts - set c))"
    using unvisited_decr [of t m opts c c2] rsn_mono [of c1 m opts x "y - 1"]
    by (simp add: matchingI)
next
  fix m opts x y c t c1 c2 c3
  assume "getTile m x y = Some t" "checkTile opts (Some t) \<and> t \<notin> set c" "c1 = c @ [t]"
    "c2 = recursivelySearchNeighbors m opts x (y - 1) c1"
    "c3 = recursivelySearchNeighbors m opts x (y + 1) c2"
  then show "((m, opts, x + 1, y, c3), (m, opts, x, y, c))
      \<in> measure (\<lambda>(m, opts, x, y, c). card (matching m opts - set c))"
    using unvisited_decr [of t m opts c c3] rsn_mono [of c1 m opts x "y - 1"]
      rsn_mono [of c2 m opts x "y + 1"]
    by (simp add: matchingI) blast
next
  fix m opts x y c t c1 c2 c3 c4
  assume "getTile m x y = Some t" "checkTile opts (Some t) \<and> t \<notin> set c" "c1 = c @ [t]"
    "c2 = recursivelySearchNeighbors m opts x (y - 1) c1"
    "c3 = recursivelySearchNeighbors m opts x (y + 1) c2"
    "c4 = recursivelySearchNeighbors m opts (x + 1) y c3"
  then show "((m, opts, x - 1, y, c4), (m, opts, x, y, c))
      \<in> measure (\<lambda>(m, opts, x, y, c). card (matching m opts - set c))"
    using unvisited_decr [of t m opts c c4] rsn_mono [of c1 m opts x "y - 1"]
      rsn_mono [of c2 m opts x "y + 1"] rsn_mono [of c3 m opts "x + 1" y]
    by (simp add: matchingI) blast
qed

declare recursionDepth.simps [simp del]

section \<open>The pipeline (\<open>phaserTiledHull\<close>)\<close>

text \<open>The four corner points pushed for a tile by \<open>calculateHullPoints\<close>.\<close>

definition tileCorners :: "tile \<Rightarrow> point list" where
  "tileCorners tile =
     [(tile_left tile, tile_top tile), (tile_right tile, tile_top tile),
      (tile_left tile, tile_bottom tile), (tile_right tile, tile_bottom tile)]"

text \<open>The hull provider \<open>hulljs\<close> is an external library: it is a parameter, called with
  the points of a cluster and concavity 1.\<close>

definition calculateHullPoints ::
  "(point list \<Rightarrow> nat \<Rightarrow> point list) \<Rightarrow> tile list list \<Rightarrow> point list list" where
  "calculateHullPoints hulljs clusters =
     map (\<lambda>cluster. hulljs (concat (map tileCorners cluster)) 1) clusters"

text \<open>The constructor of \<open>PolygonEdge\<close> (module \<open>./polygon-edge\<close>) is a parameter too: it
  takes an edge and the index of its polygon.\<close>

definition phaserTiledHull ::
  "(point list \<Rightarrow> nat \<Rightarrow> point list) \<Rightarrow> (line \<Rightarrow> nat \<Rightarrow> 'e) \<Rightarrow> tilemap \<Rightarrow> options
     \<Rightarrow> error + 'e list list" where
  "phaserTiledHull hulljs PolygonEdge tilemapLayer opts =
     (let clusters = calculateClusters tilemapLayer opts;
          pointHulls = calculateHullPoints hulljs clusters
      in case buildPolygons pointHulls of
           Inl e \<Rightarrow> Inl e
         | Inr polyHulls \<Rightarrow>
             Inr (map (\<lambda>(i, polyHull). map (\<lambda>edge. PolygonEdge edge i) polyHull)
                    (enumerate 0 polyHulls)))"

section \<open>Notions the properties are stated with\<close>

text \<open>Two tiles are 4-adjacent when their cells are neighbours to the north, south, east
  or west.\<close>

definition adjacent4 :: "tile \<Rightarrow> tile \<Rightarrow> bool" where
  "adjacent4 a b =
     ((tile_x a = tile_x b \<and> (tile_y a = tile_y b - 1 \<or> tile_y a = tile_y b + 1)) \<or>
      (tile_y a = tile_y b \<and> (tile_x a = tile_x b + 1 \<or> tile_x a = tile_x b - 1)))"

text \<open>A path from \<open>a\<close> to \<open>b\<close> inside \<open>S\<close>: a non-empty list of tiles of \<open>S\<close> from \<open>a\<close> to
  \<open>b\<close> whose consecutive tiles are 4-adjacent.\<close>

definition isPath :: "tile set \<Rightarrow> tile \<Rightarrow> tile \<Rightarrow> tile list \<Rightarrow> bool" where
  "isPath S a b path =
     (path \<noteq> [] \<and> hd path = a \<and> last path = b \<and> set path \<subseteq> S \<and> successively adjacent4 path)"

text \<open>Adjacency restricted to a set of tiles, and the invariant of the scan: every cluster
  is a non-empty, duplicate-free list of matching tiles, closed under matching neighbours
  and connected, and clusters at different positions are disjoint.\<close>

definition adjrel :: "tile set \<Rightarrow> (tile \<times> tile) set" where
  "adjrel S = {(a, b). a \<in> S \<and> b \<in> S \<and> adjacent4 a b}"

definition closedCluster :: "tilemap \<Rightarrow> options \<Rightarrow> tile set \<Rightarrow> bool" where
  "closedCluster m opts S = (\<forall>a\<in>S. \<forall>b\<in>matching m opts. adjacent4 a b \<longrightarrow> b \<in> S)"

definition goodCluster :: "tilemap \<Rightarrow> options \<Rightarrow> tile list \<Rightarrow> bool" where
  "goodCluster m opts C =
     (C \<noteq> [] \<and> distinct C \<and> set C \<subseteq> matching m opts \<and> closedCluster m opts (set C) \<and>
      (\<forall>a\<in>set C. \<forall>b\<in>set C. (a, b) \<in> (adjrel (set C))\<^sup>*))"

definition goodClusters :: "tilemap \<Rightarrow> options \<Rightarrow> tile list list \<Rightarrow> bool" where
  "goodClusters m opts cs =
     ((\<forall>C\<in>set cs. goodCluster m opts C) \<and>
      (\<forall>i<length cs. \<forall>j<length cs. i \<noteq> j \<longrightarrow> set (cs ! i) \<inter> set (cs ! j) = {}))"

definition covered :: "tile list list \<Rightarrow> tile \<Rightarrow> bool" where
  "covered cs t = (\<exists>C\<in>set cs. t \<in> set C)"

text \<open>Concrete grids and options: a row of three 32-pixel tiles whose middle tile has
  another index, a column of \<open>n\<close> colliding tiles, and the empty grid.\<close>

definition plainTile :: "int \<Rightarrow> bool \<Rightarrow> tile" where
  "plainTile i c =
     \<lparr>tile_x = 0, tile_y = 0, tile_index = i, tile_properties = [], tile_collides = c,
      tile_left = 0, tile_right = 32, tile_top = 0, tile_bottom = 32\<rparr>"

definition rowMap :: tilemap where
  "rowMap = \<lparr>width = 3, height = 1, tiles = (\<lambda>x y. Some (plainTile (if x = 1 then 0 else 7) False))\<rparr>"

definition rowOpts :: options where
  "rowOpts = \<lparr>tileIndices = Some [7], tileProperty = None, checkCollide = False\<rparr>"

definition rowTile :: "int \<Rightarrow> tile" where
  "rowTile x = (plainTile 7 False)\<lparr>tile_x := x, tile_y := 0\<rparr>"

definition columnMap :: "nat \<Rightarrow> tilemap" where
  "columnMap n = \<lparr>width = 1, height = int n, tiles = (\<lambda>x y. Some (plainTile 1 True))\<rparr>"

definition collideOpts :: options where
  "collideOpts = \<lparr>tileIndices = None, tileProperty = None, checkCollide = True\<rparr>"

definition columnTile :: "nat \<Rightarrow> tile" where
  "columnTile k = (plainTile 1 True)\<lparr>tile_x := 0, tile_y := int k\<rparr>"

definition columnPrefix :: "nat \<Rightarrow> tile list" where
  "columnPrefix k = map columnTile [0..<k]"

definition emptyMap :: tilemap where
  "emptyMap = \<lparr>width = 0, height = 0, tiles = (\<lambda>x y. None)\<rparr>"

definition noOpts :: options where
  "noOpts = \<lparr>tileIndices = None, tileProperty = None, checkCollide = False\<rparr>"

section \<open>Properties of the edge reducer\<close>

lemmas reducer_defs = buildPolygon_def closeSegment_def mergeFirstLast_def LinePts_def
  checkIfCollinear_def

lemma walkSegments_scan:
  "0 < i \<Longrightarrow> i \<le> length hullPoints \<Longrightarrow>
   walkSegments hullPoints i edges currentEdge =
     scanSegments (hullPoints ! (i - 1)) (drop i hullPoints) edges currentEdge"
proof (induction hullPoints i edges currentEdge rule: walkSegments.induct)
  case (1 hullPoints i edges currentEdge)
  show ?case
  proof (cases "i < length hullPoints")
    case False
    with "1.prems" show ?thesis by (simp add: walkSegments.simps)
  next
    case True
    then have d: "drop i hullPoints = hullPoints ! i # drop (i + 1) hullPoints"
      by (simp add: Cons_nth_drop_Suc)
    show ?thesis
      using True "1.IH"(1)[OF True refl] "1.IH"(2)[OF True refl] "1.prems"
      by (subst walkSegments.simps) (simp add: d Let_def LinePts_def)
  qed
qed







lemma closeSegment_alt:
  "pts \<noteq> [] \<Longrightarrow>
   closeSegment pts (e, c) =
     (if checkIfCollinear c (LinePts (last pts) (hd pts))
      then e @ [Line (start_x c) (start_y c) (fst (hd pts)) (snd (hd pts))]
      else e @ [c, LinePts (last pts) (hd pts)])"
  by (simp add: closeSegment_def last_conv_nth hd_conv_nth LinePts_def)




lemma roundDouble_exact: "\<bar>n\<bar> < 2 ^ 53 \<Longrightarrow> roundDouble n = Finite n"
  by (simp add: roundDouble_def)

lemma small_product:
  fixes a b :: int
  assumes "\<bar>a\<bar> < 2 ^ 26" and "\<bar>b\<bar> < 2 ^ 26"
  shows "\<bar>a * b\<bar> < 2 ^ 52"
proof -
  have "\<bar>a * b\<bar> = \<bar>a\<bar> * \<bar>b\<bar>" by (rule abs_mult)
  also have "\<dots> < 2 ^ 26 * 2 ^ 26"
    using assms by (intro mult_strict_mono') simp_all
  finally show ?thesis by simp
qed

text \<open>
  Claim C7, as amended.  On segments whose coordinates are integers below \<open>2 ^ 53\<close> and
  whose direction components are below \<open>2 ^ 26\<close> in magnitude, where every difference and
  product of the test is exact in doubles, the collinearity decision is true if and only
  if \<open>dx1 * dy2 - dy1 * dx2\<close> is exactly zero, with no tolerance; there it is the exact
  test \<open>checkIfCollinear\<close> the reducer is modelled with.
\<close>

theorem checkIfCollinear_exact_on_safe_range:
  assumes "safeLine line1" and "safeLine line2"
  shows "(checkIfCollinearDouble line1 line2 \<longleftrightarrow>
            fst (direction line1) * snd (direction line2)
              - snd (direction line1) * fst (direction line2) = 0)
         \<and> checkIfCollinearDouble line1 line2 = checkIfCollinear line1 line2"
proof -
  let ?dx1 = "end_x line1 - start_x line1" and ?dy1 = "end_y line1 - start_y line1"
  let ?dx2 = "end_x line2 - start_x line2" and ?dy2 = "end_y line2 - start_y line2"
  have d: "\<bar>?dx1\<bar> < 2 ^ 26" "\<bar>?dy1\<bar> < 2 ^ 26" "\<bar>?dx2\<bar> < 2 ^ 26" "\<bar>?dy2\<bar> < 2 ^ 26"
    using assms by (simp_all add: safeLine_def)
  then have r: "roundDouble ?dx1 = Finite ?dx1" "roundDouble ?dy1 = Finite ?dy1"
    "roundDouble ?dx2 = Finite ?dx2" "roundDouble ?dy2 = Finite ?dy2"
    by (simp_all add: roundDouble_exact)
  have p: "\<bar>?dx1 * ?dy2\<bar> < 2 ^ 52" "\<bar>?dy1 * ?dx2\<bar> < 2 ^ 52"
    using small_product [OF d(1) d(4)] small_product [OF d(2) d(3)] by simp_all
  then have rp: "roundDouble (?dx1 * ?dy2) = Finite (?dx1 * ?dy2)"
    "roundDouble (?dy1 * ?dx2) = Finite (?dy1 * ?dx2)"
    by (simp_all add: roundDouble_exact)
  have "\<bar>?dx1 * ?dy2 - ?dy1 * ?dx2\<bar> < 2 ^ 53" using p by simp
  then have rs: "roundDouble (?dx1 * ?dy2 - ?dy1 * ?dx2) = Finite (?dx1 * ?dy2 - ?dy1 * ?dx2)"
    by (rule roundDouble_exact)
  have "checkIfCollinearDouble line1 line2 \<longleftrightarrow> ?dx1 * ?dy2 - ?dy1 * ?dx2 = 0"
    by (simp add: checkIfCollinearDouble_def r rp rs)
  then show ?thesis by (simp add: direction_def checkIfCollinear_def)
qed

theorem checkIfCollinear_exact_on_safe_range_witness:
  "safeLine (Line 5 7 67108868 8) \<and> safeLine (Line 0 0 67108862 1)
   \<and> (checkIfCollinearDouble (Line 5 7 67108868 8) (Line 0 0 67108862 1) \<longleftrightarrow>
        fst (direction (Line 5 7 67108868 8)) * snd (direction (Line 0 0 67108862 1))
          - snd (direction (Line 5 7 67108868 8)) * fst (direction (Line 0 0 67108862 1)) = 0)
   \<and> \<not> checkIfCollinearDouble (Line 5 7 67108868 8) (Line 0 0 67108862 1)
   \<and> checkIfCollinearDouble (Line 0 0 3 6) (Line 1 1 2 3)"
proof -
  have s: "safeLine (Line 5 7 67108868 8)" "safeLine (Line 0 0 67108862 1)"
    "safeLine (Line 0 0 3 6)" "safeLine (Line 1 1 2 3)"
    by (simp_all add: safeLine_def)
  show ?thesis
    using s checkIfCollinear_exact_on_safe_range [OF s(1,2)]
      checkIfCollinear_exact_on_safe_range [OF s(3,4)]
    by (simp add: direction_def)
qed

text \<open>
  Counterexample to claim C7 as stated: for the direction vectors
  \<open>(134217729, 134217728)\<close> and \<open>(134217728, 134217727)\<close> the cross product is \<open>-1\<close>, but
  the product \<open>2 ^ 54 - 1\<close> rounds to \<open>2 ^ 54\<close> and the decision is true.
\<close>

theorem checkIfCollinear_rounds_large_products:
  "checkIfCollinearDouble (Line 0 0 134217729 134217728) (Line 0 0 134217728 134217727)
   \<and> fst (direction (Line 0 0 134217729 134217728)) * snd (direction (Line 0 0 134217728 134217727))
       - snd (direction (Line 0 0 134217729 134217728)) * fst (direction (Line 0 0 134217728 134217727))
     = -1"
  by code_simp




lemma scan_hd_start:
  "scanSegments prev ps e c = (e', c') \<Longrightarrow>
   start_x (hd (e' @ [c'])) = start_x (hd (e @ [c])) \<and>
   start_y (hd (e' @ [c'])) = start_y (hd (e @ [c]))"
proof (induction ps arbitrary: prev e c)
  case Nil
  then show ?case by simp
next
  case (Cons p ps)
  show ?case
  proof (cases "checkIfCollinear c (LinePts prev p)")
    case True
    with Cons.prems have
      "scanSegments p ps e (Line (start_x c) (start_y c) (fst p) (snd p)) = (e', c')" by simp
    from Cons.IH [OF this] show ?thesis by (cases e) simp_all
  next
    case False
    with Cons.prems have "scanSegments p ps (e @ [c]) (LinePts prev p) = (e', c')" by simp
    from Cons.IH [OF this] show ?thesis by (cases e) simp_all
  qed
qed

lemma closeSegment_ends:
  assumes "pts \<noteq> []"
  shows "closeSegment pts (e, c) \<noteq> []"
    and "start_x (hd (closeSegment pts (e, c))) = start_x (hd (e @ [c]))"
    and "start_y (hd (closeSegment pts (e, c))) = start_y (hd (e @ [c]))"
    and "end_x (last (closeSegment pts (e, c))) = fst (hd pts)"
    and "end_y (last (closeSegment pts (e, c))) = snd (hd pts)"
  using assms by (cases e; simp add: closeSegment_alt LinePts_def)+

text \<open>
  Whenever the merge of the first and the last edge fires, the edge it adds is the
  zero-length edge at the first hull point: the first edge starts there and the last edge
  ends there.
\<close>

lemma wraparound_merge_collapses:
  assumes len: "2 \<le> length hullPoints"
    and edges: "edges = closeSegment hullPoints
        (walkSegments hullPoints 1 [] (LinePts (hullPoints ! 0) (hullPoints ! 1)))"
    and fires: "checkIfCollinear (hd edges) (last edges)" and two: "2 \<le> length edges"
  shows "buildPolygon hullPoints =
      Inr (butlast (tl edges) @ [LinePts (hd hullPoints) (hd hullPoints)])"
proof -
  from len obtain p0 p1 ps where pts: "hullPoints = p0 # p1 # ps"
    by (cases hullPoints; cases "tl hullPoints") auto
  obtain e c where st: "scanSegments p0 (p1 # ps) [] (LinePts p0 p1) = (e, c)"
    by (cases "scanSegments p0 (p1 # ps) [] (LinePts p0 p1)")
  have w: "walkSegments hullPoints 1 [] (LinePts (hullPoints ! 0) (hullPoints ! 1)) = (e, c)"
    using st pts by (simp add: walkSegments_scan del: scanSegments.simps)
  have ne: "hullPoints \<noteq> []" using pts by simp
  have e1: "edges = closeSegment hullPoints (e, c)" using edges w by simp
  note ends = closeSegment_ends [OF ne, of e c, folded e1]
  have s: "start_x (hd (e @ [c])) = fst p0" "start_y (hd (e @ [c])) = snd p0"
    using scan_hd_start [OF st] by (simp_all add: LinePts_def)
  have first: "start_x (hd edges) = fst p0" "start_y (hd edges) = snd p0"
    using ends(2,3) s by simp_all
  have last: "end_x (last edges) = fst p0" "end_y (last edges) = snd p0"
    using ends(4,5) pts by simp_all
  have "mergeFirstLast edges = Inr (butlast (tl edges) @ [LinePts p0 p0])"
    using fires two ends(1) first last
    by (simp add: mergeFirstLast_def hd_conv_nth last_conv_nth LinePts_def Let_def)
  then show ?thesis using pts edges by (simp add: buildPolygon_def)
qed

text \<open>
  Claim C1 (the code departs from it).  On the square with corners \<open>(0,0)\<close>, \<open>(2,0)\<close>,
  \<open>(2,2)\<close>, \<open>(0,2)\<close>, the boundary started at the midpoint \<open>(1,0)\<close> of a side, the scan
  leaves the edges \<open>(1,0)-(2,0)\<close> first and \<open>(0,0)-(1,0)\<close> last.  They are collinear and
  are replaced by one edge, but that edge runs from the first edge's start to the last
  edge's end, which is the single point \<open>(1,0)\<close>, and not from the last edge's start
  \<open>(0,0)\<close> to the first edge's end \<open>(2,0)\<close>.
\<close>

theorem wraparound_merge_at_midpoint_start:
  "closeSegment [(1,0), (2,0), (2,2), (0,2), (0,0)]
     (walkSegments [(1,0), (2,0), (2,2), (0,2), (0,0)] 1 [] (LinePts (1,0) (2,0)))
     = [Line 1 0 2 0, Line 2 0 2 2, Line 2 2 0 2, Line 0 2 0 0, Line 0 0 1 0]
   \<and> checkIfCollinear (Line 1 0 2 0) (Line 0 0 1 0)
   \<and> mergeFirstLast [Line 1 0 2 0, Line 2 0 2 2, Line 2 2 0 2, Line 0 2 0 0, Line 0 0 1 0]
     = Inr [Line 2 0 2 2, Line 2 2 0 2, Line 0 2 0 0, Line 1 0 1 0]
   \<and> buildPolygon [(1,0), (2,0), (2,2), (0,2), (0,0)]
     = Inr [Line 2 0 2 2, Line 2 2 0 2, Line 0 2 0 0, Line 1 0 1 0]
   \<and> Line 1 0 1 0 \<noteq> Line 0 0 2 0"
  by (simp add: reducer_defs walkSegments.simps)

text \<open>
  Claim C2 (the code departs from it).  On the same square, with the boundary started at
  the midpoint \<open>(2,1)\<close> of its right side, the merge fires and the output holds the
  zero-length edge \<open>(2,1)-(2,1)\<close> in place of the right side.  That edge passes the
  collinearity test with both of its neighbours: two cyclically adjacent output edges are
  collinear.
\<close>

theorem output_has_adjacent_collinear_edges:
  "buildPolygon [(2,1), (2,2), (0,2), (0,0), (2,0)]
     = Inr [Line 2 2 0 2, Line 0 2 0 0, Line 0 0 2 0, Line 2 1 2 1]
   \<and> cyclicAdjacentCollinear [Line 2 2 0 2, Line 0 2 0 0, Line 0 0 2 0, Line 2 1 2 1]
   \<and> checkIfCollinear (Line 0 0 2 0) (Line 2 1 2 1)
   \<and> checkIfCollinear (Line 2 1 2 1) (Line 2 2 0 2)"
  by (simp add: reducer_defs walkSegments.simps cyclicAdjacentCollinear_def)

text \<open>
  Claim C4 (the code departs from it).  On a 32 by 32 tile whose boundary starts at the
  midpoint of its top side, the wrap-around merge fires and the direction vectors of the
  polygon's edges sum to \<open>(-32, 0)\<close>, not to the zero vector.
\<close>

theorem merged_polygon_not_closed:
  "buildPolygon [(16,0), (32,0), (32,32), (0,32), (0,0)]
     = Inr [Line 32 0 32 32, Line 32 32 0 32, Line 0 32 0 0, Line 16 0 16 0]
   \<and> sumDirections [Line 32 0 32 32, Line 32 32 0 32, Line 0 32 0 0, Line 16 0 16 0]
     = (-32, 0)"
  by (simp add: reducer_defs walkSegments.simps sumDirections_def direction_def)

section \<open>Properties of the cluster finder\<close>

lemma matchingD:
  "t \<in> matching m opts \<Longrightarrow> getTile m (tile_x t) (tile_y t) = Some t \<and> checkTile opts (Some t)"
  by (simp add: matching_def)

lemma rsn_subset: "set (recursivelySearchNeighbors m opts x y c) \<subseteq> set c \<union> matching m opts"
proof (induction x y c rule: rsn_induct [of m opts])
  case (skip x y c)
  then show ?case by simp
next
  case (step x y c t c2 c3 c4 c5)
  note ih = step.IH [unfolded step.hyps]
  have "t \<in> matching m opts" using step.hyps(1,2) by (rule matchingI)
  with ih have "set c5 \<subseteq> set c \<union> matching m opts" by auto
  then show ?case using step.hyps(8) by simp
qed

lemma rsn_chain:
  assumes "recursivelySearchNeighbors m opts x (y - 1) (c @ [t]) = c2"
    and "recursivelySearchNeighbors m opts x (y + 1) c2 = c3"
    and "recursivelySearchNeighbors m opts (x + 1) y c3 = c4"
    and "recursivelySearchNeighbors m opts (x - 1) y c4 = c5"
  shows "set (c @ [t]) \<subseteq> set c2" "set c2 \<subseteq> set c3" "set c3 \<subseteq> set c4" "set c4 \<subseteq> set c5"
  using assms rsn_mono by blast+

lemma rsn_start:
  assumes g: "getTile m x y = Some t" and k: "checkTile opts (Some t)"
  shows "t \<in> set (recursivelySearchNeighbors m opts x y c)"
proof (cases "t \<in> set c")
  case True
  then show ?thesis using rsn_mono [of c m opts x y] by auto
next
  case False
  let ?c2 = "recursivelySearchNeighbors m opts x (y - 1) (c @ [t])"
  let ?c3 = "recursivelySearchNeighbors m opts x (y + 1) ?c2"
  let ?c4 = "recursivelySearchNeighbors m opts (x + 1) y ?c3"
  let ?c5 = "recursivelySearchNeighbors m opts (x - 1) y ?c4"
  have "set (c @ [t]) \<subseteq> set ?c2" by (rule rsn_mono)
  also have "\<dots> \<subseteq> set ?c3" by (rule rsn_mono)
  also have "\<dots> \<subseteq> set ?c4" by (rule rsn_mono)
  also have "\<dots> \<subseteq> set ?c5" by (rule rsn_mono)
  finally have "t \<in> set ?c5" by simp
  then show ?thesis by (simp only: rsn_step [OF g k False])
qed

lemma rsn_distinct: "distinct c \<Longrightarrow> distinct (recursivelySearchNeighbors m opts x y c)"
proof (induction x y c rule: rsn_induct [of m opts])
  case (skip x y c)
  then show ?case by simp
next
  case (step x y c t c2 c3 c4 c5)
  note ih = step.IH [unfolded step.hyps]
  from step.prems step.hyps(3) have "distinct (c @ [t])" by simp
  with ih have "distinct c5" by simp
  then show ?case using step.hyps(8) by simp
qed

lemma adjacent4_cases:
  assumes "adjacent4 a b" and "tile_x a = x" and "tile_y a = y"
  shows "(tile_x b, tile_y b) \<in> {(x, y - 1), (x, y + 1), (x + 1, y), (x - 1, y)}"
  using assms by (auto simp: adjacent4_def)

lemma rsn_closed:
  "u \<in> set (recursivelySearchNeighbors m opts x y c) \<Longrightarrow> u \<notin> set c \<Longrightarrow>
   n \<in> matching m opts \<Longrightarrow> adjacent4 u n \<Longrightarrow>
   n \<in> set (recursivelySearchNeighbors m opts x y c)"
proof (induction x y c rule: rsn_induct [of m opts])
  case (skip x y c)
  then show ?case by simp
next
  case (step x y c t c2 c3 c4 c5)
  note ih = step.IH [unfolded step.hyps]
  note sub = rsn_chain [OF step.hyps(4-7)]
  have n: "getTile m (tile_x n) (tile_y n) = Some n" "checkTile opts (Some n)"
    using matchingD [OF step.prems(3)] by simp_all
  have u5: "u \<in> set c5" using step.prems(1) step.hyps(8) by simp
  have "n \<in> set c5"
  proof (cases "u = t")
    case True
    have xy: "tile_x t = x" "tile_y t = y" using getTile_SomeD [OF step.hyps(1)] by simp_all
    from adjacent4_cases [OF step.prems(4) [unfolded True] xy]
    consider "tile_x n = x \<and> tile_y n = y - 1" | "tile_x n = x \<and> tile_y n = y + 1"
      | "tile_x n = x + 1 \<and> tile_y n = y" | "tile_x n = x - 1 \<and> tile_y n = y"
      by auto
    then show ?thesis
    proof cases
      case 1
      then have "n \<in> set c2"
        using rsn_start [of m x "y - 1" n opts "c @ [t]"] n step.hyps(4) by simp
      then show ?thesis using sub by auto
    next
      case 2
      then have "n \<in> set c3" using rsn_start [of m x "y + 1" n opts c2] n step.hyps(5) by simp
      then show ?thesis using sub by auto
    next
      case 3
      then have "n \<in> set c4" using rsn_start [of m "x + 1" y n opts c3] n step.hyps(6) by simp
      then show ?thesis using sub by auto
    next
      case 4
      then show ?thesis using rsn_start [of m "x - 1" y n opts c4] n step.hyps(7) by simp
    qed
  next
    case False
    then have "u \<notin> set (c @ [t])" using step.prems(2) by simp
    then consider "u \<in> set c2" "u \<notin> set (c @ [t])" | "u \<in> set c3" "u \<notin> set c2"
      | "u \<in> set c4" "u \<notin> set c3" | "u \<in> set c5" "u \<notin> set c4"
      using u5 by blast
    then show ?thesis
    proof cases
      case 1
      then have "n \<in> set c2" using ih(1) step.prems(3,4) by simp
      then show ?thesis using sub by auto
    next
      case 2
      then have "n \<in> set c3" using ih(2) step.prems(3,4) by simp
      then show ?thesis using sub by auto
    next
      case 3
      then have "n \<in> set c4" using ih(3) step.prems(3,4) by simp
      then show ?thesis using sub by auto
    next
      case 4
      then show ?thesis using ih(4) step.prems(3,4) by simp
    qed
  qed
  then show ?case using step.hyps(8) by simp
qed

lemma adjacent4_sym: "adjacent4 a b \<Longrightarrow> adjacent4 b a"
  by (auto simp: adjacent4_def)

lemma sym_adjrel: "sym (adjrel S)"
  by (auto simp: sym_def adjrel_def adjacent4_sym)

lemma adjrel_mono: "S \<subseteq> N \<Longrightarrow> adjrel S \<subseteq> adjrel N"
  by (auto simp: adjrel_def)

lemma adjrel_rtrancl_mono: "S \<subseteq> N \<Longrightarrow> (a, b) \<in> (adjrel S)\<^sup>* \<Longrightarrow> (a, b) \<in> (adjrel N)\<^sup>*"
  using rtrancl_mono [OF adjrel_mono] by blast

lemma adjrel_rtrancl_start: "(a, b) \<in> (adjrel S)\<^sup>* \<Longrightarrow> b \<in> S \<Longrightarrow> a \<in> S"
  by (induction rule: converse_rtrancl_induct) (auto simp: adjrel_def)

lemma reach_extend:
  assumes t: "getTile m x y = Some t" and t': "getTile m x' y' = Some t'"
    and nb: "(x', y') \<in> {(x, y - 1), (x, y + 1), (x + 1, y), (x - 1, y)}"
    and r: "(t', u) \<in> (adjrel S)\<^sup>*" and u: "u \<in> S" and sub: "S \<subseteq> N" and tN: "t \<in> N"
  shows "(t, u) \<in> (adjrel N)\<^sup>*"
proof -
  have "t' \<in> S" using r u by (rule adjrel_rtrancl_start)
  moreover have "adjacent4 t t'"
    using getTile_SomeD [OF t] getTile_SomeD [OF t'] nb by (auto simp: adjacent4_def)
  ultimately have "(t, t') \<in> adjrel N" using sub tN by (auto simp: adjrel_def)
  moreover have "(t', u) \<in> (adjrel N)\<^sup>*" using sub r by (rule adjrel_rtrancl_mono)
  ultimately show ?thesis by (rule converse_rtrancl_into_rtrancl)
qed

lemma rsn_changed:
  "recursivelySearchNeighbors m opts x y c \<noteq> c \<Longrightarrow>
   \<exists>t. getTile m x y = Some t \<and> checkTile opts (Some t) \<and> t \<notin> set c"
  using rsn_None [of m x y opts c] rsn_skip [of m x y _ opts c]
  by (cases "getTile m x y") auto

lemma rsn_reach:
  "u \<in> set (recursivelySearchNeighbors m opts x y c) \<Longrightarrow> u \<notin> set c \<Longrightarrow>
   \<exists>t. getTile m x y = Some t \<and>
       (t, u) \<in> (adjrel (set (recursivelySearchNeighbors m opts x y c) - set c))\<^sup>*"
proof (induction x y c rule: rsn_induct [of m opts])
  case (skip x y c)
  then show ?case by simp
next
  case (step x y c t c2 c3 c4 c5)
  note ih = step.IH [unfolded step.hyps]
  note sub = rsn_chain [OF step.hyps(4-7)]
  let ?N = "set c5 - set c"
  have u5: "u \<in> set c5" using step.prems(1) step.hyps(8) by simp
  have tN: "t \<in> ?N" using sub step.hyps(3) by auto
  have "(t, u) \<in> (adjrel ?N)\<^sup>*"
  proof (cases "u = t")
    case True
    then show ?thesis by simp
  next
    case False
    then have "u \<notin> set (c @ [t])" using step.prems(2) by simp
    then consider "u \<in> set c2" "u \<notin> set (c @ [t])" | "u \<in> set c3" "u \<notin> set c2"
      | "u \<in> set c4" "u \<notin> set c3" | "u \<in> set c5" "u \<notin> set c4"
      using u5 by blast
    then show ?thesis
    proof cases
      case 1
      from ih(1) [OF 1] obtain t' where t': "getTile m x (y - 1) = Some t'"
        "(t', u) \<in> (adjrel (set c2 - set (c @ [t])))\<^sup>*" by blast
      show ?thesis
        by (rule reach_extend [OF step.hyps(1) t'(1) _ t'(2) _ _ tN]) (use 1 sub in auto)
    next
      case 2
      from ih(2) [OF 2] obtain t' where t': "getTile m x (y + 1) = Some t'"
        "(t', u) \<in> (adjrel (set c3 - set c2))\<^sup>*" by blast
      show ?thesis
        by (rule reach_extend [OF step.hyps(1) t'(1) _ t'(2) _ _ tN]) (use 2 sub in auto)
    next
      case 3
      from ih(3) [OF 3] obtain t' where t': "getTile m (x + 1) y = Some t'"
        "(t', u) \<in> (adjrel (set c4 - set c3))\<^sup>*" by blast
      show ?thesis
        by (rule reach_extend [OF step.hyps(1) t'(1) _ t'(2) _ _ tN]) (use 3 sub in auto)
    next
      case 4
      from ih(4) [OF 4] obtain t' where t': "getTile m (x - 1) y = Some t'"
        "(t', u) \<in> (adjrel (set c5 - set c4))\<^sup>*" by blast
      show ?thesis
        by (rule reach_extend [OF step.hyps(1) t'(1) _ t'(2) _ _ tN]) (use 4 sub in auto)
    qed
  qed
  then show ?case using step.hyps(1,8) by simp
qed

lemma closed_reach:
  assumes cl: "closedCluster m opts K" and r: "(a, b) \<in> (adjrel S)\<^sup>*"
    and S: "S \<subseteq> matching m opts" and a: "a \<in> K"
  shows "b \<in> K"
  using r a
proof (induction rule: rtrancl_induct)
  case base
  then show ?case .
next
  case (step b c)
  then have "b \<in> K" by simp
  moreover from step.hyps(2) have "adjacent4 b c" "c \<in> matching m opts"
    using S by (auto simp: adjrel_def)
  ultimately show ?case using cl by (auto simp: closedCluster_def)
qed

lemma adjrel_rtrancl_sym: "(a, b) \<in> (adjrel S)\<^sup>* \<Longrightarrow> (b, a) \<in> (adjrel S)\<^sup>*"
  using sym_rtrancl [OF sym_adjrel, of S] by (auto simp: sym_def)

lemma new_cluster:
  assumes g: "getTile m x y = Some s" and k: "checkTile opts (Some s)"
  defines "C \<equiv> recursivelySearchNeighbors m opts x y []"
  shows "s \<in> set C" and "goodCluster m opts C" and "\<forall>u\<in>set C. (s, u) \<in> (adjrel (set C))\<^sup>*"
proof -
  show s: "s \<in> set C" unfolding C_def using g k by (rule rsn_start)
  have sub: "set C \<subseteq> matching m opts"
    unfolding C_def using rsn_subset [of m opts x y "[]"] by simp
  have dist: "distinct C" unfolding C_def by (rule rsn_distinct) simp
  have cl: "closedCluster m opts (set C)"
    unfolding closedCluster_def C_def using rsn_closed [of _ m opts x y "[]"] by auto
  show reach: "\<forall>u\<in>set C. (s, u) \<in> (adjrel (set C))\<^sup>*"
  proof
    fix u assume "u \<in> set C"
    then have "\<exists>t. getTile m x y = Some t \<and> (t, u) \<in> (adjrel (set C - set []))\<^sup>*"
      unfolding C_def by (intro rsn_reach) simp_all
    then show "(s, u) \<in> (adjrel (set C))\<^sup>*" using g by auto
  qed
  have conn: "\<forall>a\<in>set C. \<forall>b\<in>set C. (a, b) \<in> (adjrel (set C))\<^sup>*"
  proof (intro ballI)
    fix a b assume "a \<in> set C" "b \<in> set C"
    then have "(a, s) \<in> (adjrel (set C))\<^sup>*" "(s, b) \<in> (adjrel (set C))\<^sup>*"
      using reach adjrel_rtrancl_sym by blast+
    then show "(a, b) \<in> (adjrel (set C))\<^sup>*" by (rule rtrancl_trans)
  qed
  show "goodCluster m opts C"
    unfolding goodCluster_def using s sub dist cl conn by auto
qed

lemma findTileInClusters_None:
  "findTileInClusters clusters t = None \<longleftrightarrow> \<not> covered clusters t"
  by (induction clusters) (auto simp: covered_def)

lemma disjoint_snoc:
  assumes "\<forall>i<length cs. \<forall>j<length cs. i \<noteq> j \<longrightarrow> set (cs ! i) \<inter> set (cs ! j) = {}"
    and "\<forall>K\<in>set cs. set K \<inter> set C = {}"
  shows "\<forall>i<length (cs @ [C]). \<forall>j<length (cs @ [C]). i \<noteq> j \<longrightarrow>
           set ((cs @ [C]) ! i) \<inter> set ((cs @ [C]) ! j) = {}"
proof (intro allI impI)
  fix i j assume i: "i < length (cs @ [C])" and j: "j < length (cs @ [C])" and ne: "i \<noteq> j"
  consider "i < length cs" "j < length cs" | "i < length cs" "j = length cs"
    | "i = length cs" "j < length cs"
    using i j ne by (cases "i < length cs"; cases "j < length cs") auto
  then show "set ((cs @ [C]) ! i) \<inter> set ((cs @ [C]) ! j) = {}"
  proof cases
    case 1
    then show ?thesis using assms(1) ne by (simp add: nth_append)
  next
    case 2
    then have "cs ! i \<in> set cs" by simp
    then show ?thesis using assms(2) 2 by (simp add: nth_append)
  next
    case 3
    then have "cs ! j \<in> set cs" by simp
    then show ?thesis using assms(2) 3 by (auto simp: nth_append)
  qed
qed

lemma visitTile_good:
  assumes good: "goodClusters m opts cs"
  shows "goodClusters m opts (visitTile m opts x y cs)"
proof (cases "getTile m x y")
  case None
  then show ?thesis using good by (simp add: visitTile_def)
next
  case (Some s)
  show ?thesis
  proof (cases "checkTile opts (Some s) \<and> findTileInClusters cs s = None")
    case False
    then show ?thesis using good Some by (auto simp: visitTile_def)
  next
    case True
    let ?C = "recursivelySearchNeighbors m opts x y []"
    have k: "checkTile opts (Some s)" and nc: "\<not> covered cs s"
      using True by (simp_all add: findTileInClusters_None)
    note nw = new_cluster [OF Some k]
    have v: "visitTile m opts x y cs = cs @ [?C]" using Some True by (simp add: visitTile_def)
    have disj: "\<forall>K\<in>set cs. set K \<inter> set ?C = {}"
    proof (intro ballI, rule ccontr)
      fix K assume K: "K \<in> set cs" and "set K \<inter> set ?C \<noteq> {}"
      then obtain u where u: "u \<in> set K" "u \<in> set ?C" by auto
      have gK: "goodCluster m opts K" using good K by (simp add: goodClusters_def)
      have "(s, u) \<in> (adjrel (set ?C))\<^sup>*" using nw(3) u(2) by simp
      then have "(u, s) \<in> (adjrel (set ?C))\<^sup>*" by (rule adjrel_rtrancl_sym)
      moreover have "set ?C \<subseteq> matching m opts" using nw(2) by (simp add: goodCluster_def)
      moreover have "closedCluster m opts (set K)" using gK by (simp add: goodCluster_def)
      ultimately have "s \<in> set K" using u(1) closed_reach by blast
      then show False using nc K by (auto simp: covered_def)
    qed
    have "goodClusters m opts (cs @ [?C])"
      unfolding goodClusters_def
    proof
      show "\<forall>C\<in>set (cs @ [?C]). goodCluster m opts C"
        using good nw(2) by (auto simp: goodClusters_def)
      show "\<forall>i<length (cs @ [?C]). \<forall>j<length (cs @ [?C]). i \<noteq> j \<longrightarrow>
           set ((cs @ [?C]) ! i) \<inter> set ((cs @ [?C]) ! j) = {}"
        using good disj by (intro disjoint_snoc) (simp_all add: goodClusters_def)
    qed
    then show ?thesis using v by simp
  qed
qed

lemma visitTile_covered_mono: "covered cs t \<Longrightarrow> covered (visitTile m opts x y cs) t"
  by (auto simp: visitTile_def covered_def split: option.splits)

lemma visitTile_covers:
  assumes "getTile m x y = Some t" and "checkTile opts (Some t)"
  shows "covered (visitTile m opts x y cs) t"
proof (cases "findTileInClusters cs t = None")
  case True
  then show ?thesis
    using assms new_cluster(1) [OF assms] by (simp add: visitTile_def covered_def)
next
  case False
  then show ?thesis using assms by (simp add: visitTile_def findTileInClusters_None)
qed

lemma forY_good: "goodClusters m opts cs \<Longrightarrow> goodClusters m opts (forY m opts x y cs)"
proof (induction m opts x y cs rule: forY.induct)
  case (1 m opts x y cs)
  show ?case
  proof (cases "y < height m")
    case True
    then show ?thesis
      using "1.IH" [OF True visitTile_good [OF "1.prems"]] by (subst forY.simps) simp
  next
    case False
    then show ?thesis using "1.prems" by (subst forY.simps) simp
  qed
qed

lemma forY_covered_mono: "covered cs t \<Longrightarrow> covered (forY m opts x y cs) t"
proof (induction m opts x y cs rule: forY.induct)
  case (1 m opts x y cs)
  show ?case
  proof (cases "y < height m")
    case True
    then show ?thesis
      using "1.IH" [OF True visitTile_covered_mono [OF "1.prems"]] by (subst forY.simps) simp
  next
    case False
    then show ?thesis using "1.prems" by (subst forY.simps) simp
  qed
qed

lemma forY_covers:
  "getTile m x y' = Some t \<Longrightarrow> checkTile opts (Some t) \<Longrightarrow> y \<le> y' \<Longrightarrow>
   covered (forY m opts x y cs) t"
proof (induction m opts x y cs rule: forY.induct)
  case (1 m opts x y cs)
  have lt: "y < height m" using getTile_SomeD [OF "1.prems"(1)] "1.prems"(3) by simp
  have unf: "forY m opts x y cs = forY m opts x (y + 1) (visitTile m opts x y cs)"
    using lt by (subst forY.simps) simp
  show ?case
  proof (cases "y = y'")
    case True
    then have "covered (visitTile m opts x y cs) t"
      using visitTile_covers "1.prems"(1,2) by simp
    then show ?thesis unfolding unf by (rule forY_covered_mono)
  next
    case False
    then have "y + 1 \<le> y'" using "1.prems"(3) by simp
    then show ?thesis unfolding unf using "1.IH" [OF lt "1.prems"(1,2)] by simp
  qed
qed

lemma forX_good: "goodClusters m opts cs \<Longrightarrow> goodClusters m opts (forX m opts x cs)"
proof (induction m opts x cs rule: forX.induct)
  case (1 m opts x cs)
  show ?case
  proof (cases "x < width m")
    case True
    then show ?thesis
      using "1.IH" [OF True forY_good [OF "1.prems"]] by (subst forX.simps) simp
  next
    case False
    then show ?thesis using "1.prems" by (subst forX.simps) simp
  qed
qed

lemma forX_covered_mono: "covered cs t \<Longrightarrow> covered (forX m opts x cs) t"
proof (induction m opts x cs rule: forX.induct)
  case (1 m opts x cs)
  show ?case
  proof (cases "x < width m")
    case True
    then show ?thesis
      using "1.IH" [OF True forY_covered_mono [OF "1.prems"]] by (subst forX.simps) simp
  next
    case False
    then show ?thesis using "1.prems" by (subst forX.simps) simp
  qed
qed

lemma forX_covers:
  "getTile m x' y' = Some t \<Longrightarrow> checkTile opts (Some t) \<Longrightarrow> x \<le> x' \<Longrightarrow>
   covered (forX m opts x cs) t"
proof (induction m opts x cs rule: forX.induct)
  case (1 m opts x cs)
  have lt: "x < width m" and y': "0 \<le> y'"
    using getTile_SomeD [OF "1.prems"(1)] "1.prems"(3) by simp_all
  have unf: "forX m opts x cs = forX m opts (x + 1) (forY m opts x 0 cs)"
    using lt by (subst forX.simps) simp
  show ?case
  proof (cases "x = x'")
    case True
    then have "covered (forY m opts x 0 cs) t"
      using forY_covers [OF _ "1.prems"(2) y'] "1.prems"(1) by simp
    then show ?thesis unfolding unf by (rule forX_covered_mono)
  next
    case False
    then have "x + 1 \<le> x'" using "1.prems"(3) by simp
    then show ?thesis unfolding unf using "1.IH" [OF lt "1.prems"(1,2)] by simp
  qed
qed

lemma calculateClusters_good: "goodClusters m opts (calculateClusters m opts)"
  unfolding calculateClusters_def by (rule forX_good) (simp add: goodClusters_def)

lemma calculateClusters_covers:
  assumes "getTile m x y = Some t" and "checkTile opts (Some t)"
  shows "covered (calculateClusters m opts) t"
proof -
  have "0 \<le> x" using getTile_SomeD [OF assms(1)] by simp
  with assms show ?thesis unfolding calculateClusters_def by (rule forX_covers)
qed

lemma reach_path:
  "(a, b) \<in> (adjrel S)\<^sup>* \<Longrightarrow> a \<in> S \<Longrightarrow> \<exists>path. isPath S a b path"
proof (induction rule: rtrancl_induct)
  case base
  then have "isPath S a a [a]" by (simp add: isPath_def)
  then show ?case ..
next
  case (step b c)
  then obtain p where p: "isPath S a b p" by blast
  from step.hyps(2) have bc: "c \<in> S" "adjacent4 b c" by (auto simp: adjrel_def)
  have "isPath S a c (p @ [c])"
    using p bc by (auto simp: isPath_def successively_append_iff)
  then show ?case ..
qed

lemma rowClusters: "calculateClusters rowMap rowOpts = [[rowTile 0], [rowTile 2]]"
  by code_simp

lemma columnClusters: "calculateClusters (columnMap 2) collideOpts = [[columnTile 0, columnTile 1]]"
  by code_simp

text \<open>
  Claim C3.  For every grid and every matching configuration, the clusters of
  \<open>calculateClusters\<close> partition the matching cells: every matching cell is in exactly one
  cluster (at exactly one position of the result), no cluster holds a cell twice, and the
  union of the clusters is exactly the set of matching cells.
\<close>

theorem clusters_partition_matching_cells:
  "(\<forall>x y t. getTile m x y = Some t \<and> checkTile opts (Some t) \<longrightarrow>
      (\<exists>!k. k < length (calculateClusters m opts) \<and> t \<in> set (calculateClusters m opts ! k)))
   \<and> (\<forall>cluster \<in> set (calculateClusters m opts). distinct cluster)
   \<and> \<Union> (set ` set (calculateClusters m opts)) = matching m opts"
proof (intro conjI allI impI)
  let ?cs = "calculateClusters m opts"
  note good = calculateClusters_good [of m opts, unfolded goodClusters_def]
  show "\<forall>cluster \<in> set ?cs. distinct cluster"
    using good by (simp add: goodCluster_def)
  show "\<Union> (set ` set ?cs) = matching m opts"
  proof
    show "\<Union> (set ` set ?cs) \<subseteq> matching m opts"
      using good by (auto simp: goodCluster_def)
    show "matching m opts \<subseteq> \<Union> (set ` set ?cs)"
    proof
      fix t assume "t \<in> matching m opts"
      then have "covered ?cs t" using matchingD calculateClusters_covers by blast
      then show "t \<in> \<Union> (set ` set ?cs)" by (auto simp: covered_def)
    qed
  qed
  fix x y t assume a: "getTile m x y = Some t \<and> checkTile opts (Some t)"
  then have "covered ?cs t" using calculateClusters_covers by blast
  then obtain C where "C \<in> set ?cs" "t \<in> set C" by (auto simp: covered_def)
  then obtain k where k: "k < length ?cs" "t \<in> set (?cs ! k)"
    by (metis in_set_conv_nth)
  show "\<exists>!k. k < length ?cs \<and> t \<in> set (?cs ! k)"
  proof (rule ex1I [of _ k])
    show "k < length ?cs \<and> t \<in> set (?cs ! k)" using k by simp
    fix j assume j: "j < length ?cs \<and> t \<in> set (?cs ! j)"
    show "j = k"
    proof (rule ccontr)
      assume "j \<noteq> k"
      then have "set (?cs ! j) \<inter> set (?cs ! k) = {}" using good j k(1) by blast
      then show False using j k(2) by auto
    qed
  qed
qed

theorem clusters_partition_matching_cells_witness:
  "getTile rowMap 2 0 = Some (rowTile 2) \<and> checkTile rowOpts (Some (rowTile 2))
   \<and> calculateClusters rowMap rowOpts = [[rowTile 0], [rowTile 2]]
   \<and> (\<exists>!k. k < length (calculateClusters rowMap rowOpts)
          \<and> rowTile 2 \<in> set (calculateClusters rowMap rowOpts ! k))"
proof -
  have g: "getTile rowMap 2 0 = Some (rowTile 2) \<and> checkTile rowOpts (Some (rowTile 2))"
    by (simp add: getTile_def rowMap_def rowTile_def plainTile_def checkTile.simps rowOpts_def)
  from clusters_partition_matching_cells [of rowMap rowOpts, THEN conjunct1, rule_format, OF g]
  show ?thesis using g rowClusters by simp
qed

text \<open>
  Claim C5.  For every grid and every matching configuration: any two cells of one
  cluster are joined by a path of 4-adjacent matching cells that stays inside the cluster,
  and no cell of one cluster is 4-adjacent to a cell of another cluster.
\<close>

theorem clusters_connected_and_separated:
  "(\<forall>cluster \<in> set (calculateClusters m opts). \<forall>a \<in> set cluster. \<forall>b \<in> set cluster.
      \<exists>path. isPath (set cluster) a b path \<and> set path \<subseteq> matching m opts)
   \<and> (\<forall>i j a b. i < length (calculateClusters m opts) \<and> j < length (calculateClusters m opts) \<and>
        i \<noteq> j \<and> a \<in> set (calculateClusters m opts ! i) \<and> b \<in> set (calculateClusters m opts ! j)
        \<longrightarrow> \<not> adjacent4 a b)"
proof (intro conjI ballI allI impI)
  let ?cs = "calculateClusters m opts"
  note good = calculateClusters_good [of m opts, unfolded goodClusters_def]
  {
    fix cluster a b assume c: "cluster \<in> set ?cs" and a: "a \<in> set cluster" and b: "b \<in> set cluster"
    have g: "goodCluster m opts cluster" using good c by simp
    then have "(a, b) \<in> (adjrel (set cluster))\<^sup>*" using a b by (simp add: goodCluster_def)
    then obtain p where p: "isPath (set cluster) a b p" using reach_path a by blast
    moreover have "set p \<subseteq> matching m opts" using p g by (auto simp: isPath_def goodCluster_def)
    ultimately show "\<exists>path. isPath (set cluster) a b path \<and> set path \<subseteq> matching m opts" by blast
  }
  {
    fix i j a b
    assume h: "i < length ?cs \<and> j < length ?cs \<and> i \<noteq> j \<and> a \<in> set (?cs ! i) \<and> b \<in> set (?cs ! j)"
    show "\<not> adjacent4 a b"
    proof
      assume adj: "adjacent4 a b"
      have gi: "goodCluster m opts (?cs ! i)" and gj: "goodCluster m opts (?cs ! j)"
        using good h by simp_all
      have "b \<in> matching m opts" using gj h by (auto simp: goodCluster_def)
      then have "b \<in> set (?cs ! i)"
        using gi h adj by (auto simp: goodCluster_def closedCluster_def)
      moreover have "set (?cs ! i) \<inter> set (?cs ! j) = {}" using good h by blast
      ultimately show False using h by auto
    qed
  }
qed

theorem clusters_connected_and_separated_witness:
  "[columnTile 0, columnTile 1] \<in> set (calculateClusters (columnMap 2) collideOpts)
   \<and> (\<exists>path. isPath (set [columnTile 0, columnTile 1]) (columnTile 0) (columnTile 1) path
         \<and> set path \<subseteq> matching (columnMap 2) collideOpts)
   \<and> (0::nat) < length (calculateClusters rowMap rowOpts)
   \<and> (1::nat) < length (calculateClusters rowMap rowOpts)
   \<and> rowTile 0 \<in> set (calculateClusters rowMap rowOpts ! 0)
   \<and> rowTile 2 \<in> set (calculateClusters rowMap rowOpts ! 1)
   \<and> \<not> adjacent4 (rowTile 0) (rowTile 2)"
proof -
  have c: "[columnTile 0, columnTile 1] \<in> set (calculateClusters (columnMap 2) collideOpts)"
    by (simp add: columnClusters)
  have p: "\<exists>path. isPath (set [columnTile 0, columnTile 1]) (columnTile 0) (columnTile 1) path
         \<and> set path \<subseteq> matching (columnMap 2) collideOpts"
    using clusters_connected_and_separated [of "columnMap 2" collideOpts, THEN conjunct1,
        rule_format, OF c, of "columnTile 0" "columnTile 1"]
    by simp
  have r: "(0::nat) < length (calculateClusters rowMap rowOpts) \<and>
      (1::nat) < length (calculateClusters rowMap rowOpts) \<and> (0::nat) \<noteq> 1 \<and>
      rowTile 0 \<in> set (calculateClusters rowMap rowOpts ! 0) \<and>
      rowTile 2 \<in> set (calculateClusters rowMap rowOpts ! 1)"
    by (simp add: rowClusters)
  have "\<not> adjacent4 (rowTile 0) (rowTile 2)"
    using clusters_connected_and_separated [of rowMap rowOpts, THEN conjunct2, rule_format, OF r] .
  then show ?thesis using c p r by simp
qed

lemma no_match_visitTile:
  "\<forall>x y. \<not> checkTile opts (getTile m x y) \<Longrightarrow> visitTile m opts x y cs = cs"
proof -
  assume "\<forall>x y. \<not> checkTile opts (getTile m x y)"
  then have "\<not> checkTile opts (getTile m x y)" by blast
  then show ?thesis by (cases "getTile m x y") (simp_all add: visitTile_def)
qed

lemma no_match_forY:
  "\<forall>x y. \<not> checkTile opts (getTile m x y) \<Longrightarrow> forY m opts x y cs = cs"
proof (induction m opts x y cs rule: forY.induct)
  case (1 m opts x y cs)
  show ?case
    using "1.IH" "1.prems" by (subst forY.simps) (simp add: no_match_visitTile)
qed

lemma no_match_forX:
  "\<forall>x y. \<not> checkTile opts (getTile m x y) \<Longrightarrow> forX m opts x cs = cs"
proof (induction m opts x cs rule: forX.induct)
  case (1 m opts x cs)
  show ?case
    using "1.IH" "1.prems" by (subst forX.simps) (simp add: no_match_forY)
qed

lemma no_match_clusters:
  "\<forall>x y. \<not> checkTile opts (getTile m x y) \<Longrightarrow> calculateClusters m opts = []"
  by (simp add: calculateClusters_def no_match_forX)

lemma no_clusters_no_polygons:
  "calculateClusters m opts = [] \<Longrightarrow> phaserTiledHull hulljs PolygonEdge m opts = Inr []"
  by (simp add: phaserTiledHull_def calculateHullPoints_def)

text \<open>
  Claim C6.  When no matching mode is configured (no index array, no property name,
  collide flag off) no cell matches and \<open>phaserTiledHull\<close> returns the empty sequence of
  polygons, without an error; so it does on an empty grid, and on a grid none of whose
  cells matches.
\<close>

theorem no_match_yields_no_polygons:
  "(tileIndices opts = None \<and> tileProperty opts = None \<and> \<not> checkCollide opts \<longrightarrow>
      (\<forall>tile. \<not> checkTile opts tile) \<and> phaserTiledHull hulljs PolygonEdge m opts = Inr [])
   \<and> (width m \<le> 0 \<or> height m \<le> 0 \<longrightarrow> phaserTiledHull hulljs PolygonEdge m opts = Inr [])
   \<and> ((\<forall>x y. \<not> checkTile opts (getTile m x y)) \<longrightarrow>
        phaserTiledHull hulljs PolygonEdge m opts = Inr [])"
proof (intro conjI impI)
  assume a: "tileIndices opts = None \<and> tileProperty opts = None \<and> \<not> checkCollide opts"
  show n: "\<forall>tile. \<not> checkTile opts tile"
  proof
    fix tile show "\<not> checkTile opts tile" using a by (cases tile) (simp_all add: checkTile.simps)
  qed
  show "phaserTiledHull hulljs PolygonEdge m opts = Inr []"
    using n by (intro no_clusters_no_polygons no_match_clusters) simp
next
  assume "width m \<le> 0 \<or> height m \<le> 0"
  then have "getTile m x y = None" for x y by (auto simp: getTile_def)
  then show "phaserTiledHull hulljs PolygonEdge m opts = Inr []"
    by (intro no_clusters_no_polygons no_match_clusters) simp
next
  assume "\<forall>x y. \<not> checkTile opts (getTile m x y)"
  then show "phaserTiledHull hulljs PolygonEdge m opts = Inr []"
    by (intro no_clusters_no_polygons no_match_clusters) simp
qed

theorem no_match_yields_no_polygons_witness:
  "tileIndices noOpts = None \<and> tileProperty noOpts = None \<and> \<not> checkCollide noOpts
   \<and> \<not> checkTile noOpts (getTile rowMap 0 0)
   \<and> phaserTiledHull (\<lambda>points concavity. points) Pair rowMap noOpts = Inr []
   \<and> width emptyMap \<le> 0
   \<and> phaserTiledHull (\<lambda>points concavity. points) Pair emptyMap rowOpts = Inr []
   \<and> (\<forall>x y. \<not> checkTile
          \<lparr>tileIndices = Some [9], tileProperty = Some ''solid'', checkCollide = True\<rparr>
          (getTile rowMap x y))
   \<and> phaserTiledHull (\<lambda>points concavity. points) Pair rowMap
        \<lparr>tileIndices = Some [9], tileProperty = Some ''solid'', checkCollide = True\<rparr> = Inr []"
proof -
  let ?h = "\<lambda>(points :: point list) (concavity :: nat). points"
  let ?o = "\<lparr>tileIndices = Some [9], tileProperty = Some ''solid'', checkCollide = True\<rparr>"
  have a: "tileIndices noOpts = None \<and> tileProperty noOpts = None \<and> \<not> checkCollide noOpts"
    by (simp add: noOpts_def)
  have b: "width emptyMap \<le> 0 \<or> height emptyMap \<le> 0" by (simp add: emptyMap_def)
  have c: "\<forall>x y. \<not> checkTile ?o (getTile rowMap x y)"
    by (simp add: getTile_def rowMap_def plainTile_def checkTile.simps)
  note t1 = no_match_yields_no_polygons [of noOpts ?h Pair rowMap, THEN conjunct1, rule_format, OF a]
  note t2 = no_match_yields_no_polygons [of rowOpts ?h Pair emptyMap, THEN conjunct2,
      THEN conjunct1, rule_format, OF b]
  note t3 = no_match_yields_no_polygons [of ?o ?h Pair rowMap, THEN conjunct2,
      THEN conjunct2, THEN mp, OF c]
  show ?thesis using a b c t1 t2 t3 by (simp add: emptyMap_def)
qed

lemma getTile_column:
  "getTile (columnMap n) x y =
     (if x = 0 \<and> 0 \<le> y \<and> y < int n then Some (columnTile (nat y)) else None)"
  by (auto simp: getTile_def columnMap_def columnTile_def)

lemma checkTile_column: "checkTile collideOpts (Some (columnTile k))"
  by (simp add: checkTile.simps collideOpts_def columnTile_def plainTile_def)

lemma columnTile_in_prefix: "columnTile k \<in> set (columnPrefix j) \<longleftrightarrow> k < j"
  by (auto simp: columnPrefix_def columnTile_def plainTile_def)

lemma columnPrefix_Suc: "columnPrefix k @ [columnTile k] = columnPrefix (Suc k)"
  by (simp add: columnPrefix_def)

lemma rsn_column_outside:
  "x \<noteq> 0 \<or> y < 0 \<or> int n \<le> y \<Longrightarrow>
   recursivelySearchNeighbors (columnMap n) collideOpts x y c = c \<and>
   recursionDepth (columnMap n) collideOpts x y c = 1"
  by (subst recursivelySearchNeighbors.simps, subst recursionDepth.simps)
     (auto simp: getTile_column)

lemma rsn_column_seen:
  "k < j \<Longrightarrow> k < n \<Longrightarrow>
   recursivelySearchNeighbors (columnMap n) collideOpts 0 (int k) (columnPrefix j) = columnPrefix j \<and>
   recursionDepth (columnMap n) collideOpts 0 (int k) (columnPrefix j) = 1"
  by (subst recursivelySearchNeighbors.simps, subst recursionDepth.simps)
     (simp add: getTile_column columnTile_in_prefix)

lemma column_walk:
  "n - k = d \<Longrightarrow> k \<le> n \<Longrightarrow>
   recursivelySearchNeighbors (columnMap n) collideOpts 0 (int k) (columnPrefix k) = columnPrefix n \<and>
   recursionDepth (columnMap n) collideOpts 0 (int k) (columnPrefix k) = n - k + 1"
proof (induction d arbitrary: k)
  case 0
  then have "k = n" by simp
  then show ?case using rsn_column_outside [of 0 "int n" n "columnPrefix n"] by simp
next
  case (Suc d)
  then have kn: "k < n" and ih: "recursivelySearchNeighbors (columnMap n) collideOpts 0 (int (Suc k))
        (columnPrefix (Suc k)) = columnPrefix n"
      "recursionDepth (columnMap n) collideOpts 0 (int (Suc k)) (columnPrefix (Suc k)) = n - Suc k + 1"
    using Suc.IH [of "Suc k"] by simp_all
  let ?m = "columnMap n" and ?o = collideOpts
  have g: "getTile ?m 0 (int k) = Some (columnTile k)" using kn by (simp add: getTile_column)
  have notin: "columnTile k \<notin> set (columnPrefix k)" by (simp add: columnTile_in_prefix)
  have up: "recursivelySearchNeighbors ?m ?o 0 (int k - 1) (columnPrefix (Suc k)) = columnPrefix (Suc k)
      \<and> recursionDepth ?m ?o 0 (int k - 1) (columnPrefix (Suc k)) = 1"
  proof (cases k)
    case 0
    then show ?thesis using rsn_column_outside [of 0 "-1" n "columnPrefix (Suc k)"] by simp
  next
    case (Suc j)
    then have "int k - 1 = int j" by simp
    then show ?thesis using rsn_column_seen [of j "Suc k" n] Suc kn by simp
  qed
  have down: "recursivelySearchNeighbors ?m ?o 0 (int k + 1) (columnPrefix (Suc k)) = columnPrefix n"
    "recursionDepth ?m ?o 0 (int k + 1) (columnPrefix (Suc k)) = n - k"
    using ih kn by (simp_all add: add.commute)
  have right: "recursivelySearchNeighbors ?m ?o (0 + 1) (int k) (columnPrefix n) = columnPrefix n"
    "recursionDepth ?m ?o (0 + 1) (int k) (columnPrefix n) = 1"
    using rsn_column_outside [of 1 "int k" n "columnPrefix n"] by simp_all
  have left: "recursivelySearchNeighbors ?m ?o (0 - 1) (int k) (columnPrefix n) = columnPrefix n"
    "recursionDepth ?m ?o (0 - 1) (int k) (columnPrefix n) = 1"
    using rsn_column_outside [of "-1" "int k" n "columnPrefix n"] by simp_all
  have "recursivelySearchNeighbors ?m ?o 0 (int k) (columnPrefix k) = columnPrefix n"
    by (subst rsn_step [OF g checkTile_column notin])
       (simp only: columnPrefix_Suc up down right left)
  moreover have "recursionDepth ?m ?o 0 (int k) (columnPrefix k) = n - k + 1"
    apply (subst recursionDepth.simps)
    apply (simp only: g option.case checkTile_column notin Let_def columnPrefix_Suc up down right left)
    using kn apply simp
    done
  ultimately show ?case by simp
qed

text \<open>
  Claim C9, as amended.  The traversal is the direct recursion of
  \<open>recursivelySearchNeighbors\<close> on the four neighbours, and its depth grows with the
  cluster: on a column of \<open>n\<close> matching cells the cluster has \<open>n\<close> cells and the call stack
  is \<open>n + 1\<close> calls deep.
\<close>

theorem recursion_depth_grows_with_cluster:
  "recursivelySearchNeighbors (columnMap n) collideOpts 0 0 [] = columnPrefix n
   \<and> length (columnPrefix n) = n
   \<and> recursionDepth (columnMap n) collideOpts 0 0 [] = n + 1"
  using column_walk [of n 0 n] by (simp add: columnPrefix_def)

text \<open>
  Counterexample to claim C9 as stated: no bound on the recursion depth holds for all
  grids, so the depth is not bounded independently of the cluster size.
\<close>

theorem recursion_depth_unbounded:
  "\<not> (\<exists>bound. \<forall>tilemap opts x y cluster. recursionDepth tilemap opts x y cluster \<le> bound)"
proof
  assume "\<exists>bound. \<forall>tilemap opts x y cluster. recursionDepth tilemap opts x y cluster \<le> bound"
  then obtain bound where "recursionDepth (columnMap bound) collideOpts 0 0 [] \<le> bound" by blast
  then show False using column_walk [of bound 0 bound] by (simp add: columnPrefix_def)
qed

end
